theory Spec2Isabelle
  imports Complex_Main "HOL-Library.Char_ord" "HOL-Library.List_Lexorder"
begin

section \<open>Configuration (run.py, lines 12-19)\<close>

text \<open>
  The module-level constants of \<^verbatim>\<open>batch_calculate/run.py\<close>.  The properties of the
  partitioner and of the progress throttle are stated for every configuration, so the
  constants are the fields of a record; \<open>run_config\<close> holds the values of the file.
  Python integers are unbounded: \<open>int\<close>.
\<close>

record config =
  TOTAL_START :: int
  TOTAL_END :: int
  NUM_SEGMENTS :: int
  OVERLAP :: int
  CHECKPOINT_INTERVAL :: int
  PROGRESS_THROTTLE :: int

definition run_config :: config where
  "run_config =
     \<lparr>TOTAL_START = 1000560284742167, TOTAL_END = 2 * 10 ^ 15, NUM_SEGMENTS = 8,
      OVERLAP = 2004, CHECKPOINT_INTERVAL = 3600, PROGRESS_THROTTLE = 10\<rparr>"

text \<open>
  The exceptions the modelled statements can raise: the division of line 76 and the
  modulus of line 107 (ZeroDivisionError), the subscripts of lines 108, 112 and 114
  (IndexError), and a failing \<^verbatim>\<open>p.terminate()\<close> (OSError).
\<close>

datatype error = ZeroDivisionError | IndexError | OSError

section \<open>Decimal rendering: \<^verbatim>\<open>str(i)\<close> and the f-string fields\<close>

definition digit_char :: "nat \<Rightarrow> char" where
  "digit_char d = char_of (48 + d)"

fun str_nat :: "nat \<Rightarrow> string" where
  "str_nat n = (if n < 10 then [digit_char n] else str_nat (n div 10) @ [digit_char (n mod 10)])"

declare str_nat.simps [simp del]

definition str_int :: "int \<Rightarrow> string" where
  "str_int i = (if i < 0 then CHR ''-'' # str_nat (nat (- i)) else str_nat (nat i))"

section \<open>Range partitioning (main, lines 75-85)\<close>

text \<open>
  \<^verbatim>\<open>seg_len = total_len // NUM_SEGMENTS\<close>: floor division, which is \<open>div\<close> on \<open>int\<close>.
  Python raises ZeroDivisionError for a zero divisor, where HOL returns 0; the raise is
  a branch of \<open>plan_segments\<close> below.
\<close>

definition total_len :: "config \<Rightarrow> int" where
  "total_len c = TOTAL_END c - TOTAL_START c"

definition seg_len :: "config \<Rightarrow> int" where
  "seg_len c = total_len c div NUM_SEGMENTS c"

definition seg_start :: "config \<Rightarrow> nat \<Rightarrow> int" where
  "seg_start c i = TOTAL_START c + int i * seg_len c"

definition seg_end :: "config \<Rightarrow> nat \<Rightarrow> int" where
  "seg_end c i =
     (if int i < NUM_SEGMENTS c - 1 then TOTAL_START c + (int i + 1) * seg_len c - 1
      else TOTAL_END c)"

definition ext_start :: "config \<Rightarrow> nat \<Rightarrow> int" where
  "ext_start c i = max (TOTAL_START c) (seg_start c i - OVERLAP c)"

definition ext_end :: "config \<Rightarrow> nat \<Rightarrow> int" where
  "ext_end c i = min (TOTAL_END c) (seg_end c i + OVERLAP c)"

definition checkpoint :: "nat \<Rightarrow> string" where
  "checkpoint i = ''checkpoint_'' @ str_nat i @ ''.bin''"

text \<open>One iteration of the start-up loop computes these six values for segment \<open>i\<close>.\<close>

record segment =
  seg_id :: nat
  core_start :: int
  core_end :: int
  extended_start :: int
  extended_end :: int
  checkpoint_file :: string

definition segment_of :: "config \<Rightarrow> nat \<Rightarrow> segment" where
  "segment_of c i =
     \<lparr>seg_id = i, core_start = seg_start c i, core_end = seg_end c i,
      extended_start = ext_start c i, extended_end = ext_end c i,
      checkpoint_file = checkpoint i\<rparr>"

text \<open>
  \<^verbatim>\<open>for i in range(NUM_SEGMENTS)\<close>: the indices \<open>0, \<dots>, NUM_SEGMENTS - 1\<close>, none when
  \<open>NUM_SEGMENTS \<le> 0\<close>.  The division of line 76 comes before the loop.
\<close>

definition plan_segments :: "config \<Rightarrow> error + segment list" where
  "plan_segments c =
     (if NUM_SEGMENTS c = 0 then Inl ZeroDivisionError
      else Inr (map (segment_of c) [0..<nat (NUM_SEGMENTS c)]))"

text \<open>
  \<^verbatim>\<open>worker(seg_id, start, end, checkpoint_file)\<close> (lines 32-42) starts one engine process
  with this command line; main passes the extended range of the segment (line 87).
\<close>

definition worker_cmd :: "config \<Rightarrow> nat \<Rightarrow> int \<Rightarrow> int \<Rightarrow> string \<Rightarrow> string list" where
  "worker_cmd c sid start end' checkpoint_file' =
     [''taskset'', ''-c'', str_nat (sid mod 64)] @
     [''./prime_search'', str_int start, str_int end', checkpoint_file',
      str_int (CHECKPOINT_INTERVAL c)]"

definition started_workers :: "config \<Rightarrow> error + string list list" where
  "started_workers c =
     (case plan_segments c of
        Inl e \<Rightarrow> Inl e
      | Inr segs \<Rightarrow>
          Inr (map (\<lambda>s. worker_cmd c (seg_id s) (extended_start s) (extended_end s)
                          (checkpoint_file s)) segs))"

definition example_config :: config where
  "example_config =
     \<lparr>TOTAL_START = 100, TOTAL_END = 200, NUM_SEGMENTS = 2, OVERLAP = 5,
      CHECKPOINT_INTERVAL = 3600, PROGRESS_THROTTLE = 10\<rparr>"

text \<open>A configuration whose bounds are the wrong way round.\<close>

definition inverted_config :: config where
  "inverted_config =
     \<lparr>TOTAL_START = 200, TOTAL_END = 100, NUM_SEGMENTS = 2, OVERLAP = 5,
      CHECKPOINT_INTERVAL = 3600, PROGRESS_THROTTLE = 10\<rparr>"

section \<open>The line protocol (lines 105, 108, 111, 112)\<close>

text \<open>
  Strings are lists of characters with a code below 256.  \<^verbatim>\<open>line.startswith(p)\<close>,
  \<^verbatim>\<open>line.split(":")\<close>, the subscript \<^verbatim>\<open>[1]\<close> (which raises IndexError when the list is
  too short) and \<^verbatim>\<open>str.strip()\<close>, which removes the characters Python counts as white space
  from both ends.
\<close>

definition startswith :: "string \<Rightarrow> string \<Rightarrow> bool" where
  "startswith s p = (take (length p) s = p)"

fun split_colon :: "string \<Rightarrow> string list" where
  "split_colon [] = [[]]"
| "split_colon (ch # cs) =
     (if ch = CHR '':'' then [] # split_colon cs
      else (case split_colon cs of [] \<Rightarrow> [[ch]] | f # fs \<Rightarrow> (ch # f) # fs))"

definition nth_py :: "'a list \<Rightarrow> nat \<Rightarrow> error + 'a" where
  "nth_py xs i = (if i < length xs then Inr (xs ! i) else Inl IndexError)"

definition is_space :: "char \<Rightarrow> bool" where
  "is_space ch = (of_char ch \<in> {9, 10, 11, 12, 13, 28, 29, 30, 31, 32, 133, 160 :: nat})"

definition strip :: "string \<Rightarrow> string" where
  "strip s = rev (dropWhile is_space (rev (dropWhile is_space s)))"

text \<open>
  For a line that starts with a tag of \<open>k - 1\<close> characters and a colon, the field
  \<^verbatim>\<open>line.split(":")[1]\<close> is the text after the tag up to the next colon (lemmas
  \<open>field1_progress\<close> and \<open>field1_success\<close> below).
\<close>

definition payload :: "nat \<Rightarrow> string \<Rightarrow> string" where
  "payload k line = takeWhile (\<lambda>ch. ch \<noteq> CHR '':'') (drop k line)"

section \<open>The coordinator loop (main, lines 93-131)\<close>

text \<open>
  What main prints, as data: the segment id and the value of a progress line (line 109),
  of a success line (line 113), of an informational line (line 120), and the notice of the
  interrupt handler (line 130).
\<close>

datatype out_line =
    ProgressLine nat string
  | SuccessLine nat string
  | InfoLine nat string
  | InterruptLine

text \<open>
  The state the loop works on: the module-level \<^verbatim>\<open>results\<close> list (one entry per segment,
  \<^verbatim>\<open>None\<close> or the recorded string), the local \<^verbatim>\<open>progress_counter\<close>, the
  \<^verbatim>\<open>stop_event\<close> flag, and the lines printed so far.
\<close>

record coord_state =
  results :: "string option list"
  progress_counter :: int
  stop_event :: bool
  printed :: "out_line list"

definition initial_state :: "config \<Rightarrow> coord_state" where
  "initial_state c =
     \<lparr>results = replicate (nat (NUM_SEGMENTS c)) None, progress_counter = 0,
      stop_event = False, printed = []\<rparr>"

text \<open>
  The environment of one pass of the \<^verbatim>\<open>while\<close> loop.  Each \<^verbatim>\<open>q.get_nowait()\<close> either
  raises \<^verbatim>\<open>queue.Empty\<close> or returns a pair of a segment id and a line; a
  \<^verbatim>\<open>KeyboardInterrupt\<close> can arrive in its place.  A tick lists the outcomes of the polls in
  the order of \<^verbatim>\<open>output_queues\<close>, and the process handles that are in the registry
  \<^verbatim>\<open>processes\<close> when line 127 reads it, each with the result of its \<^verbatim>\<open>poll()\<close> and
  with whether its \<^verbatim>\<open>terminate()\<close> would raise.  What the readers and the worker threads
  do between the polls is given by these lists; a run is a list of ticks.
\<close>

datatype poll = Empty | Item nat string | KeyboardInterrupt

record proc =
  proc_id :: nat
  returncode :: "int option"
  terminate_raises :: bool

record tick =
  polls :: "poll list"
  processes :: "proc list"

text \<open>
  Lines 105-120, for one dequeued line.  The result is the new state and whether the
  \<^verbatim>\<open>for\<close> loop is left by \<^verbatim>\<open>break\<close>.
\<close>

definition handle_line :: "config \<Rightarrow> nat \<Rightarrow> string \<Rightarrow> coord_state \<Rightarrow> error + (bool \<times> coord_state)" where
  "handle_line c sid line st =
     (if startswith line ''PROGRESS:'' then
        (let st1 = st\<lparr>progress_counter := progress_counter st + 1\<rparr> in
         if PROGRESS_THROTTLE c = 0 then Inl ZeroDivisionError
         else if progress_counter st1 mod PROGRESS_THROTTLE c = 0 then
           (case nth_py (split_colon line) 1 of
              Inl e \<Rightarrow> Inl e
            | Inr prime \<Rightarrow> Inr (False, st1\<lparr>printed := printed st1 @ [ProgressLine sid prime]\<rparr>))
         else Inr (False, st1))
      else if startswith line ''SUCCESS:'' then
        (case nth_py (split_colon line) 1 of
           Inl e \<Rightarrow> Inl e
         | Inr f \<Rightarrow>
             (let n = strip f;
                  st1 = st\<lparr>printed := printed st @ [SuccessLine sid n]\<rparr> in
              if sid < length (results st1)
              then Inr (True, st1\<lparr>results := (results st1)[sid := Some n], stop_event := True\<rparr>)
              else Inl IndexError))
      else if line \<noteq> [] then Inr (False, st\<lparr>printed := printed st @ [InfoLine sid line]\<rparr>)
      else Inr (False, st))"

text \<open>
  Lines 98-120: the \<^verbatim>\<open>for\<close> loop over the queues.  The result is the new state and
  whether a \<^verbatim>\<open>KeyboardInterrupt\<close> ended the pass; the polls after a \<^verbatim>\<open>break\<close> or an
  interrupt are not made.
\<close>

fun drain :: "config \<Rightarrow> poll list \<Rightarrow> coord_state \<Rightarrow> error + (bool \<times> coord_state)" where
  "drain c [] st = Inr (False, st)"
| "drain c (Empty # qs) st = drain c qs st"
| "drain c (KeyboardInterrupt # qs) st = Inr (True, st)"
| "drain c (Item sid line # qs) st =
     (case handle_line c sid line st of
        Inl e \<Rightarrow> Inl e
      | Inr (brk, st') \<Rightarrow> if brk then Inr (False, st') else drain c qs st')"

text \<open>
  Lines 95-131: the \<^verbatim>\<open>while\<close> loop.  \<open>Finished\<close> is the loop left (by its condition, by
  the \<^verbatim>\<open>break\<close> of line 128 or through the interrupt handler), \<open>Raised\<close> an exception
  that leaves main, and \<open>Running\<close> the loop still going when the given ticks are used up.
\<close>

datatype 'a run = Running 'a | Finished 'a | Raised error

definition all_exited :: "proc list \<Rightarrow> bool" where
  "all_exited ps = list_all (\<lambda>p. returncode p \<noteq> None) ps"

fun coordinator :: "config \<Rightarrow> tick list \<Rightarrow> coord_state \<Rightarrow> coord_state run" where
  "coordinator c [] st = (if stop_event st then Finished st else Running st)"
| "coordinator c (t # ts) st =
     (if stop_event st then Finished st
      else (case drain c (polls t) st of
              Inl e \<Rightarrow> Raised e
            | Inr (interrupted, st') \<Rightarrow>
                if interrupted
                then Finished (st'\<lparr>stop_event := True, printed := printed st' @ [InterruptLine]\<rparr>)
                else if all_exited (processes t) then Finished st'
                else coordinator c ts st'))"

section \<open>Shutdown and final report (main, lines 133-147)\<close>

text \<open>
  Lines 134-138: \<^verbatim>\<open>p.terminate()\<close> inside \<^verbatim>\<open>try\<close> with a bare \<^verbatim>\<open>except: pass\<close>, so an
  exception of one call does not end the loop.
\<close>

definition terminate :: "proc \<Rightarrow> error + unit" where
  "terminate p = (if terminate_raises p then Inl OSError else Inr ())"

text \<open>
  \<^verbatim>\<open>for p in processes\<close> walks the shared list \<^verbatim>\<open>processes\<close> by position: each step reads
  the element at the iterator's index, if the list still has one there, and moves the index
  on by one.  The worker threads run lines 62-65 at the same time: when its process has
  ended, a worker removes the handle from the list (\<^verbatim>\<open>processes.remove(process)\<close>, the first
  element that is this handle, nothing when it is absent).  The list can therefore shrink
  between two steps of the loop.  The schedule says, for each step of the loop in turn,
  which handles (by id) worker threads remove after the step's call of \<^verbatim>\<open>terminate\<close> and
  before the next step; when the schedule is used up nothing more is removed.
  \<open>terminate_loop\<close> returns the ids of the processes on which \<^verbatim>\<open>terminate\<close> was called,
  in order.
\<close>

fun remove_handle :: "nat \<Rightarrow> proc list \<Rightarrow> proc list" where
  "remove_handle i [] = []"
| "remove_handle i (p # ps) = (if proc_id p = i then ps else p # remove_handle i ps)"

fun remove_handles :: "nat list \<Rightarrow> proc list \<Rightarrow> proc list" where
  "remove_handles [] reg = reg"
| "remove_handles (g # gs) reg = remove_handles gs (remove_handle g reg)"

definition next_removals :: "nat list list \<Rightarrow> nat list" where
  "next_removals sched = (case sched of [] \<Rightarrow> [] | gone # rest \<Rightarrow> gone)"

lemma length_remove_handle: "length (remove_handle i reg) \<le> length reg"
  by (induction reg) auto

lemma length_remove_handles: "length (remove_handles gs reg) \<le> length reg"
proof (induction gs arbitrary: reg)
  case Nil
  show ?case by simp
next
  case (Cons g gs)
  have "length (remove_handles gs (remove_handle g reg)) \<le> length (remove_handle g reg)"
    by (rule Cons.IH)
  also have "\<dots> \<le> length reg" by (rule length_remove_handle)
  finally show ?case by simp
qed

function terminate_loop :: "nat \<Rightarrow> proc list \<Rightarrow> nat list list \<Rightarrow> nat list" where
  "terminate_loop i reg sched =
     (if i < length reg then
        (case terminate (reg ! i) of
           Inl e \<Rightarrow>
             proc_id (reg ! i) #
               terminate_loop (Suc i) (remove_handles (next_removals sched) reg) (tl sched)
         | Inr u \<Rightarrow>
             proc_id (reg ! i) #
               terminate_loop (Suc i) (remove_handles (next_removals sched) reg) (tl sched))
      else [])"
  by pat_completeness auto
termination
proof (relation "measure (\<lambda>(i, reg, sched). length reg - i)")
  show "wf (measure (\<lambda>(i, reg, sched). length reg - i))" by simp
next
  fix i :: nat and reg :: "proc list" and sched :: "nat list list" and e :: error
  assume "i < length reg"
  then show "((Suc i, remove_handles (next_removals sched) reg, tl sched), i, reg, sched)
      \<in> measure (\<lambda>(i, reg, sched). length reg - i)"
    using length_remove_handles [of "next_removals sched" reg] by simp
next
  fix i :: nat and reg :: "proc list" and sched :: "nat list list" and u :: unit
  assume "i < length reg"
  then show "((Suc i, remove_handles (next_removals sched) reg, tl sched), i, reg, sched)
      \<in> measure (\<lambda>(i, reg, sched). length reg - i)"
    using length_remove_handles [of "next_removals sched" reg] by simp
qed

declare terminate_loop.simps [simp del]

text \<open>
  Lines 143-147.  The recorded values are strings, so \<^verbatim>\<open>min(found)\<close> is the minimum in
  Python's order of strings: lexicographic by character code, a proper prefix first.  This
  is the order of \<open>string\<close> here.
\<close>

datatype report = Found string | NotFound

definition final_report :: "string option list \<Rightarrow> report" where
  "final_report res =
     (let found = map the (filter (\<lambda>r. r \<noteq> None) res)
      in if found \<noteq> [] then Found (min_list found) else NotFound)"

record run_result =
  terminated :: "nat list"
  reported :: report
  out_lines :: "out_line list"

definition shutdown :: "coord_state \<Rightarrow> proc list \<Rightarrow> nat list list \<Rightarrow> run_result" where
  "shutdown st registry sched =
     \<lparr>terminated = terminate_loop 0 registry sched, reported = final_report (results st),
      out_lines = printed st\<rparr>"

text \<open>
  main: start-up, loop, shutdown.  \<open>registry\<close> is the list \<^verbatim>\<open>processes\<close> as it stands when
  the loop of line 134 starts, \<open>sched\<close> the removals by worker threads while that loop runs.
  The result is \<open>None\<close> when the coordinator loop has not ended within the given ticks.
\<close>

definition main ::
  "config \<Rightarrow> tick list \<Rightarrow> proc list \<Rightarrow> nat list list \<Rightarrow> error + run_result option" where
  "main c ticks registry sched =
     (case started_workers c of
        Inl e \<Rightarrow> Inl e
      | Inr ws \<Rightarrow>
          (case coordinator c ticks (initial_state c) of
             Running st \<Rightarrow> Inr None
           | Raised e \<Rightarrow> Inl e
           | Finished st \<Rightarrow> Inr (Some (shutdown st registry sched))))"

section \<open>Notions the statements use\<close>

text \<open>
  Polls that carry a progress or a success line, the progress lines among the printed
  ones, the number of progress lines a run dequeues, and a tick that neither ends the loop
  nor carries a success line or an interrupt.
\<close>

fun is_progress :: "poll \<Rightarrow> bool" where
  "is_progress (Item sid line) = startswith line ''PROGRESS:''"
| "is_progress q = False"

fun is_success :: "poll \<Rightarrow> bool" where
  "is_success (Item sid line) = startswith line ''SUCCESS:''"
| "is_success q = False"

fun is_progress_line :: "out_line \<Rightarrow> bool" where
  "is_progress_line (ProgressLine sid prime) = True"
| "is_progress_line l = False"

definition progress_lines :: "out_line list \<Rightarrow> nat" where
  "progress_lines out = length (filter is_progress_line out)"

definition progress_events :: "tick list \<Rightarrow> nat" where
  "progress_events ts = (\<Sum>t\<leftarrow>ts. length (filter is_progress (polls t)))"

definition quiet_tick :: "tick \<Rightarrow> bool" where
  "quiet_tick t =
     (\<not> all_exited (processes t) \<and>
      list_all (\<lambda>q. q \<noteq> KeyboardInterrupt \<and> \<not> is_success q) (polls t))"

text \<open>
  The values of the success lines printed so far (line 113 prints one for every success
  line that is dequeued), and the two shapes the results table can have.
\<close>

fun success_payloads :: "out_line list \<Rightarrow> string list" where
  "success_payloads [] = []"
| "success_payloads (SuccessLine sid n # out) = n # success_payloads out"
| "success_payloads (l # out) = success_payloads out"

definition nothing_recorded :: "coord_state \<Rightarrow> bool" where
  "nothing_recorded st =
     (list_all (\<lambda>r. r = None) (results st) \<and> success_payloads (printed st) = [])"

definition one_recorded :: "coord_state \<Rightarrow> bool" where
  "one_recorded st =
     (\<exists>n. filter (\<lambda>r. r \<noteq> None) (results st) = [Some n] \<and> success_payloads (printed st) = [n])"

text \<open>
  The reading of the specification for the final report: every success line a segment
  sends is recorded under the id of the segment (\<open>spec_recorded\<close>), the recorded values are
  compared as decimal numbers (\<open>decimal_value\<close> reads a string of decimal digits), and the
  recorded value whose number is least is reported (\<open>numeric_min_report\<close>).
\<close>

definition digit_of :: "char \<Rightarrow> nat" where
  "digit_of ch = of_char ch - 48"

definition decimal_step :: "nat \<Rightarrow> char \<Rightarrow> nat" where
  "decimal_step a ch = 10 * a + digit_of ch"

definition decimal_value :: "string \<Rightarrow> nat" where
  "decimal_value s = foldl decimal_step 0 s"

definition numeric_min_report :: "string option list \<Rightarrow> report" where
  "numeric_min_report res =
     (let found = map the (filter (\<lambda>r. r \<noteq> None) res)
      in if found \<noteq> [] then Found (arg_min_list decimal_value found) else NotFound)"

fun record_successes :: "poll list \<Rightarrow> string option list \<Rightarrow> string option list" where
  "record_successes [] res = res"
| "record_successes (Item sid line # qs) res =
     record_successes qs
       (if startswith line ''SUCCESS:'' then res[sid := Some (strip (payload 8 line))] else res)"
| "record_successes (q # qs) res = record_successes qs res"

definition spec_recorded :: "config \<Rightarrow> tick list \<Rightarrow> string option list" where
  "spec_recorded c ticks =
     foldl (\<lambda>res t. record_successes (polls t) res) (replicate (nat (NUM_SEGMENTS c)) None) ticks"

text \<open>
  Inputs for the examples: a process that is still running, one that has exited and whose
  \<^verbatim>\<open>terminate()\<close> raises, ten progress lines over five ticks, a run in which segment 1
  reports 180 before segment 0 reports 120, a tick at which every process has exited, and
  a run of three segments in which segment 0 reports a success and its engine exits.
\<close>

definition running_proc :: proc where
  "running_proc = \<lparr>proc_id = 0, returncode = None, terminate_raises = False\<rparr>"

definition exited_proc :: proc where
  "exited_proc = \<lparr>proc_id = 1, returncode = Some 0, terminate_raises = True\<rparr>"

definition progress_trace :: "tick list" where
  "progress_trace =
     replicate 5 \<lparr>polls = [Item 0 ''PROGRESS:7'', Empty, Item 1 ''PROGRESS:9''],
                  processes = [running_proc]\<rparr>"

definition success_trace :: "tick list" where
  "success_trace =
     [\<lparr>polls = [Item 0 ''PROGRESS:101'', Item 1 ''SUCCESS:180''], processes = [running_proc]\<rparr>,
      \<lparr>polls = [Item 0 ''SUCCESS:120''], processes = [running_proc]\<rparr>]"

definition exit_tick :: tick where
  "exit_tick = \<lparr>polls = [Item 0 ''range exhausted'', Empty], processes = [exited_proc]\<rparr>"

definition three_config :: config where
  "three_config =
     \<lparr>TOTAL_START = 100, TOTAL_END = 400, NUM_SEGMENTS = 3, OVERLAP = 5,
      CHECKPOINT_INTERVAL = 3600, PROGRESS_THROTTLE = 10\<rparr>"

definition three_handles :: "proc list" where
  "three_handles =
     [\<lparr>proc_id = 0, returncode = Some 0, terminate_raises = False\<rparr>,
      \<lparr>proc_id = 1, returncode = None, terminate_raises = False\<rparr>,
      \<lparr>proc_id = 2, returncode = None, terminate_raises = False\<rparr>]"

definition success_tick :: tick where
  "success_tick = \<lparr>polls = [Item 0 ''SUCCESS:120'', Empty, Empty], processes = three_handles\<rparr>"

section \<open>Core ranges cover the total range\<close>

lemma segs_fit:
  assumes "1 \<le> NUM_SEGMENTS c"
  shows "NUM_SEGMENTS c * seg_len c \<le> total_len c"
proof -
  have "0 < NUM_SEGMENTS c" using assms by simp
  then have "0 \<le> total_len c mod NUM_SEGMENTS c" by simp
  moreover have "total_len c = NUM_SEGMENTS c * (total_len c div NUM_SEGMENTS c) + total_len c mod NUM_SEGMENTS c"
    by simp
  ultimately show ?thesis unfolding seg_len_def by linarith
qed

lemma ivl_join:
  fixes a p q :: int
  shows "a \<le> p \<Longrightarrow> p \<le> q + 1 \<Longrightarrow> {a .. p - 1} \<union> {p .. q} = {a .. q}"
  by auto

lemma core_prefix_union:
  fixes a L :: int
  assumes "0 \<le> L"
  shows "(\<Union>i<k. {a + int i * L .. a + (int i + 1) * L - 1}) = {a .. a + int k * L - 1}"
proof (induction k)
  case 0
  show ?case by simp
next
  case (Suc k)
  have nn: "0 \<le> int k * L" using assms by simp
  have "(\<Union>i<Suc k. {a + int i * L .. a + (int i + 1) * L - 1})
      = {a .. a + int k * L - 1} \<union> {a + int k * L .. a + (int k + 1) * L - 1}"
    using Suc.IH by (simp add: lessThan_Suc Un_commute)
  also have "\<dots> = {a .. a + (int k + 1) * L - 1}"
  proof (rule ivl_join)
    show "a \<le> a + int k * L" using nn by simp
    show "a + int k * L \<le> a + (int k + 1) * L - 1 + 1" using assms by (simp add: distrib_right)
  qed
  finally show ?case by simp
qed

lemma seg_contiguous:
  "int (Suc i) < NUM_SEGMENTS c \<Longrightarrow> seg_start c (Suc i) = seg_end c i + 1"
  by (simp add: seg_start_def seg_end_def algebra_simps)

lemma seg_core_union:
  assumes "TOTAL_START c < TOTAL_END c" "1 \<le> NUM_SEGMENTS c" "0 \<le> seg_len c"
  shows "(\<Union>i<nat (NUM_SEGMENTS c). {seg_start c i .. seg_end c i}) = {TOTAL_START c .. TOTAL_END c}"
proof -
  obtain m where m: "nat (NUM_SEGMENTS c) = Suc m" using assms(2) by (cases "nat (NUM_SEGMENTS c)") auto
  then have N: "NUM_SEGMENTS c = int m + 1" using assms(2) by linarith
  let ?a = "TOTAL_START c" and ?L = "seg_len c"
  have fit: "(int m + 1) * ?L \<le> TOTAL_END c - ?a"
    using segs_fit [OF assms(2)] N by (simp add: total_len_def)
  have pre: "(\<Union>i<m. {seg_start c i .. seg_end c i}) = {?a .. ?a + int m * ?L - 1}"
  proof -
    have "(\<Union>i<m. {seg_start c i .. seg_end c i}) = (\<Union>i<m. {?a + int i * ?L .. ?a + (int i + 1) * ?L - 1})"
      using N by (intro SUP_cong) (auto simp: seg_start_def seg_end_def)
    then show ?thesis using core_prefix_union [OF assms(3)] by simp
  qed
  have lst: "{seg_start c m .. seg_end c m} = {?a + int m * ?L .. TOTAL_END c}"
    using N by (simp add: seg_start_def seg_end_def)
  have nn: "0 \<le> int m * ?L" using assms(3) by simp
  have "(\<Union>i<Suc m. {seg_start c i .. seg_end c i})
      = (\<Union>i<m. {seg_start c i .. seg_end c i}) \<union> {seg_start c m .. seg_end c m}"
    by (simp add: lessThan_Suc Un_commute)
  also have "\<dots> = {?a .. ?a + int m * ?L - 1} \<union> {?a + int m * ?L .. TOTAL_END c}"
    by (simp only: pre lst)
  also have "\<dots> = {?a .. TOTAL_END c}"
  proof (rule ivl_join)
    show "?a \<le> ?a + int m * ?L" using nn by simp
    show "?a + int m * ?L \<le> TOTAL_END c + 1" using fit assms(3) by (simp add: distrib_right)
  qed
  finally show ?thesis by (simp only: m)
qed

lemma seg_core_disjoint:
  assumes "0 \<le> seg_len c" "i < j" "int j < NUM_SEGMENTS c"
  shows "seg_end c i < seg_start c j"
proof -
  have "int i + 1 \<le> int j" using assms(2) by simp
  then have "(int i + 1) * seg_len c \<le> int j * seg_len c"
    using assms(1) by (rule mult_right_mono)
  moreover have "int i < NUM_SEGMENTS c - 1" using assms(2,3) by linarith
  ultimately show ?thesis by (simp add: seg_start_def seg_end_def)
qed

lemma seg_core_sum:
  assumes "1 \<le> NUM_SEGMENTS c"
  shows "(\<Sum>i<nat (NUM_SEGMENTS c). seg_end c i - seg_start c i + 1) = TOTAL_END c - TOTAL_START c + 1"
proof -
  obtain m where m: "nat (NUM_SEGMENTS c) = Suc m" using assms by (cases "nat (NUM_SEGMENTS c)") auto
  then have N: "NUM_SEGMENTS c = int m + 1" using assms by linarith
  have "(\<Sum>i<m. seg_end c i - seg_start c i + 1) = (\<Sum>i<m. seg_len c)"
    using N by (intro sum.cong) (auto simp: seg_start_def seg_end_def algebra_simps)
  then have "(\<Sum>i<m. seg_end c i - seg_start c i + 1) = int m * seg_len c" by simp
  moreover have "seg_end c m - seg_start c m + 1 = TOTAL_END c - TOTAL_START c - int m * seg_len c + 1"
    using N by (simp add: seg_start_def seg_end_def)
  ultimately show ?thesis using m by simp
qed

lemma plan_segments_Inr:
  "NUM_SEGMENTS c \<noteq> 0 \<Longrightarrow> plan_segments c = Inr (map (segment_of c) [0..<nat (NUM_SEGMENTS c)])"
  by (simp add: plan_segments_def)

lemma segment_of_sel [simp]:
  "core_start (segment_of c i) = seg_start c i"
  "core_end (segment_of c i) = seg_end c i"
  "extended_start (segment_of c i) = ext_start c i"
  "extended_end (segment_of c i) = ext_end c i"
  "seg_id (segment_of c i) = i"
  by (simp_all add: segment_of_def)

text \<open>
  C2. For every valid configuration (\<open>total_end > total_start\<close>, at least one segment,
  \<open>0 \<le> overlap < segment length\<close>) the partitioner returns one segment per index, the core
  ranges are contiguous in the order of the index (each starts right after the one before
  ends, the first at \<open>total_start\<close>, the last forced to end at \<open>total_end\<close>), no two of
  them share an integer, their union is exactly \<open>[total_start, total_end]\<close>, and their
  lengths add up to \<open>total_end - total_start + 1\<close>.
\<close>

theorem C2_core_ranges_partition:
  assumes "TOTAL_START c < TOTAL_END c" and "1 \<le> NUM_SEGMENTS c"
    and "0 \<le> OVERLAP c" and "OVERLAP c < seg_len c"
  shows "\<exists>segs. plan_segments c = Inr segs \<and> int (length segs) = NUM_SEGMENTS c
    \<and> core_start (hd segs) = TOTAL_START c \<and> core_end (last segs) = TOTAL_END c
    \<and> (\<forall>i. Suc i < length segs \<longrightarrow> core_start (segs ! Suc i) = core_end (segs ! i) + 1)
    \<and> (\<forall>i j. i < j \<and> j < length segs \<longrightarrow>
          {core_start (segs ! i) .. core_end (segs ! i)} \<inter> {core_start (segs ! j) .. core_end (segs ! j)} = {})
    \<and> (\<Union>s\<in>set segs. {core_start s .. core_end s}) = {TOTAL_START c .. TOTAL_END c}
    \<and> (\<Sum>s\<leftarrow>segs. core_end s - core_start s + 1) = TOTAL_END c - TOTAL_START c + 1"
proof -
  define n where "n = nat (NUM_SEGMENTS c)"
  define segs where "segs = map (segment_of c) [0..<n]"
  have L: "0 \<le> seg_len c" using assms(3,4) by linarith
  have n: "int n = NUM_SEGMENTS c" "0 < n" using assms(2) by (simp_all add: n_def)
  have p: "plan_segments c = Inr segs"
    using assms(2) by (simp add: plan_segments_Inr segs_def n_def)
  have len: "length segs = n" by (simp add: segs_def)
  have nth: "segs ! i = segment_of c i" if "i < n" for i
    using that by (simp add: segs_def)
  have first: "core_start (hd segs) = TOTAL_START c"
    using n(2) by (simp add: segs_def hd_map upt_conv_Cons seg_start_def)
  have lst: "core_end (last segs) = TOTAL_END c"
  proof -
    have "last segs = segment_of c (n - 1)"
      using n(2) by (simp add: segs_def last_map)
    then show ?thesis using n by (simp add: seg_end_def)
  qed
  have contig: "core_start (segs ! Suc i) = core_end (segs ! i) + 1" if "Suc i < length segs" for i
  proof -
    have "int (Suc i) < NUM_SEGMENTS c" using that len n(1) by linarith
    then show ?thesis using that len by (simp add: nth seg_contiguous)
  qed
  have disj: "{core_start (segs ! i) .. core_end (segs ! i)} \<inter> {core_start (segs ! j) .. core_end (segs ! j)} = {}"
    if "i < j \<and> j < length segs" for i j
  proof -
    have "int j < NUM_SEGMENTS c" using that len n(1) by linarith
    then have "seg_end c i < seg_start c j" using seg_core_disjoint [OF L] that by blast
    then show ?thesis using that len by (auto simp: nth)
  qed
  have un: "(\<Union>s\<in>set segs. {core_start s .. core_end s}) = {TOTAL_START c .. TOTAL_END c}"
  proof -
    have "(\<Union>s\<in>set segs. {core_start s .. core_end s}) = (\<Union>i<n. {seg_start c i .. seg_end c i})"
      by (simp add: segs_def atLeast0LessThan)
    then show ?thesis using seg_core_union [OF assms(1,2) L] by (simp add: n_def)
  qed
  have sm: "(\<Sum>s\<leftarrow>segs. core_end s - core_start s + 1) = TOTAL_END c - TOTAL_START c + 1"
  proof -
    have "(\<Sum>s\<leftarrow>segs. core_end s - core_start s + 1) = (\<Sum>i<n. seg_end c i - seg_start c i + 1)"
      by (simp add: segs_def comp_def interv_sum_list_conv_sum_set_nat atLeast0LessThan)
    then show ?thesis using seg_core_sum [OF assms(2)] by (simp add: n_def)
  qed
  from p len n(1) first lst contig disj un sm show ?thesis by blast
qed

text \<open>The same at the configuration of the worked example.\<close>

theorem C2_core_ranges_partition_witness:
  "TOTAL_START example_config < TOTAL_END example_config \<and> 1 \<le> NUM_SEGMENTS example_config
   \<and> 0 \<le> OVERLAP example_config \<and> OVERLAP example_config < seg_len example_config
   \<and> (\<exists>segs. plan_segments example_config = Inr segs \<and> int (length segs) = 2
        \<and> (\<Union>s\<in>set segs. {core_start s .. core_end s}) = {100 .. 200}
        \<and> (\<Sum>s\<leftarrow>segs. core_end s - core_start s + 1) = 101)"
proof -
  have h: "TOTAL_START example_config < TOTAL_END example_config" "1 \<le> NUM_SEGMENTS example_config"
    "0 \<le> OVERLAP example_config" "OVERLAP example_config < seg_len example_config"
    by (simp_all add: example_config_def seg_len_def total_len_def)
  have v: "NUM_SEGMENTS example_config = 2" "TOTAL_START example_config = 100"
    "TOTAL_END example_config = 200"
    by (simp_all add: example_config_def)
  from C2_core_ranges_partition [OF h] v h show ?thesis by auto
qed

section \<open>The worked example of the partitioner\<close>

text \<open>
  C5 (as amended). With \<open>total_start = 100\<close>, \<open>total_end = 200\<close>, two segments and
  overlap 5 the partitioner yields segment 0 with core range [100, 149] and extended range
  [100, 154] (the lower bound 95 is clipped to \<open>total_start\<close>), and segment 1 with core
  range [150, 200] and extended range [145, 200] (the upper bound 205 is clipped to
  \<open>total_end\<close>).
\<close>

theorem C5_example_partition:
  "plan_segments example_config =
     Inr [\<lparr>seg_id = 0, core_start = 100, core_end = 149,
           extended_start = 100, extended_end = 154, checkpoint_file = ''checkpoint_0.bin''\<rparr>,
          \<lparr>seg_id = 1, core_start = 150, core_end = 200,
           extended_start = 145, extended_end = 200, checkpoint_file = ''checkpoint_1.bin''\<rparr>]"
  by code_simp

text \<open>
  C5 as stated gives segment 0 the extended range [95, 154].  Line 82 takes the maximum
  with \<open>TOTAL_START\<close>, so the extended start of segment 0 is 100, not 95.
\<close>

theorem C5_counterexample:
  "ext_start example_config 0 = 100 \<and> ext_start example_config 0 \<noteq> 95"
  by code_simp

section \<open>Overlap of the extended ranges\<close>

text \<open>
  C4 (as amended). For every valid configuration and every internal boundary between the
  consecutive segments \<open>i\<close> and \<open>i + 1\<close>, neither extended bound at the boundary is clipped,
  and the two extended ranges share exactly the \<open>2 * overlap\<close> integers from
  \<open>core_start (i + 1) - overlap\<close> to \<open>core_end i + overlap\<close>: each side reaches \<open>overlap\<close>
  integers into the core of the other.
\<close>

theorem C4_extended_overlap:
  assumes "TOTAL_START c < TOTAL_END c" and "1 \<le> NUM_SEGMENTS c"
    and "0 \<le> OVERLAP c" and "OVERLAP c < seg_len c"
    and "plan_segments c = Inr segs" and "Suc i < length segs"
  shows "extended_end (segs ! i) = core_end (segs ! i) + OVERLAP c
    \<and> extended_start (segs ! Suc i) = core_start (segs ! Suc i) - OVERLAP c
    \<and> {extended_start (segs ! i) .. extended_end (segs ! i)}
        \<inter> {extended_start (segs ! Suc i) .. extended_end (segs ! Suc i)}
      = {core_start (segs ! Suc i) - OVERLAP c .. core_end (segs ! i) + OVERLAP c}
    \<and> int (card ({extended_start (segs ! i) .. extended_end (segs ! i)}
        \<inter> {extended_start (segs ! Suc i) .. extended_end (segs ! Suc i)})) = 2 * OVERLAP c"
proof -
  let ?a = "TOTAL_START c" and ?b = "TOTAL_END c" and ?L = "seg_len c" and ?v = "OVERLAP c"
  define P where "P = int i * ?L"
  have segs: "segs = map (segment_of c) [0..<nat (NUM_SEGMENTS c)]"
    using assms(2,5) by (simp add: plan_segments_def)
  have i: "int i + 2 \<le> NUM_SEGMENTS c" using assms(6) by (simp add: segs)
  have L: "0 < ?L" using assms(3,4) by linarith
  have P: "0 \<le> P" using L by (simp add: P_def)
  have "(int i + 2) * ?L \<le> NUM_SEGMENTS c * ?L"
    using i L by (intro mult_right_mono) simp_all
  then have fit: "P + 2 * ?L \<le> ?b - ?a"
    using segs_fit [OF assms(2)] by (simp add: P_def total_len_def distrib_right)
  have ni: "segs ! i = segment_of c i" and nsi: "segs ! Suc i = segment_of c (Suc i)"
    using assms(6) by (simp_all add: segs)
  have ss: "seg_start c (Suc i) = ?a + P + ?L"
    by (simp add: seg_start_def P_def distrib_right)
  have si: "seg_start c i = ?a + P"
    by (simp add: seg_start_def P_def)
  have se: "seg_end c i = ?a + P + ?L - 1"
    using i by (simp add: seg_end_def P_def distrib_right)
  have se2: "?a + P + ?L - 1 \<le> seg_end c (Suc i)"
    using fit L by (simp add: seg_end_def P_def [symmetric] distrib_right)
  have ee: "ext_end c i = seg_end c i + ?v"
    using fit assms(4) by (simp add: ext_end_def se)
  have es: "ext_start c (Suc i) = seg_start c (Suc i) - ?v"
    using P assms(4) by (simp add: ext_start_def ss)
  have lo: "ext_start c i \<le> ext_start c (Suc i)"
    using P L assms(3,4) by (simp add: es ss ext_start_def si)
  have hi: "ext_end c i \<le> ext_end c (Suc i)"
    using se2 fit assms(4) by (simp add: ee se ext_end_def)
  have inter: "{ext_start c i .. ext_end c i} \<inter> {ext_start c (Suc i) .. ext_end c (Suc i)}
      = {seg_start c (Suc i) - ?v .. seg_end c i + ?v}"
    using lo hi by (simp add: Int_atLeastAtMost max_absorb2 min_absorb1 es ee)
  have cd: "int (card ({ext_start c i .. ext_end c i} \<inter> {ext_start c (Suc i) .. ext_end c (Suc i)}))
      = 2 * ?v"
    unfolding inter using assms(3) by (simp add: ss se)
  show ?thesis unfolding ni nsi segment_of_sel by (intro conjI ee es inter cd)
qed

text \<open>
  C4 as stated asks for exactly \<open>overlap\<close> shared integers.  In the worked example the
  overlap is 5, neither bound at the boundary is clipped, and the extended ranges
  [100, 154] and [145, 200] share 10 integers.
\<close>

theorem C4_counterexample:
  "OVERLAP example_config = 5
   \<and> ext_end example_config 0 = seg_end example_config 0 + OVERLAP example_config
   \<and> ext_start example_config 1 = seg_start example_config 1 - OVERLAP example_config
   \<and> card ({ext_start example_config 0 .. ext_end example_config 0}
        \<inter> {ext_start example_config 1 .. ext_end example_config 1}) = 10"
  by (simp add: example_config_def ext_start_def ext_end_def seg_start_def seg_end_def
      seg_len_def total_len_def)

text \<open>The amended statement at the boundary of the worked example.\<close>

theorem C4_extended_overlap_witness:
  "TOTAL_START example_config < TOTAL_END example_config \<and> 1 \<le> NUM_SEGMENTS example_config
   \<and> 0 \<le> OVERLAP example_config \<and> OVERLAP example_config < seg_len example_config
   \<and> plan_segments example_config = Inr (map (segment_of example_config) [0..<2])
   \<and> Suc 0 < length (map (segment_of example_config) [0..<2])
   \<and> {ext_start example_config 0 .. ext_end example_config 0}
        \<inter> {ext_start example_config (Suc 0) .. ext_end example_config (Suc 0)} = {145 .. 154}"
proof -
  have h: "TOTAL_START example_config < TOTAL_END example_config" "1 \<le> NUM_SEGMENTS example_config"
    "0 \<le> OVERLAP example_config" "OVERLAP example_config < seg_len example_config"
    by (simp_all add: example_config_def seg_len_def total_len_def)
  have p: "plan_segments example_config = Inr (map (segment_of example_config) [0..<2])"
    by (simp add: plan_segments_def example_config_def)
  have l: "Suc 0 < length (map (segment_of example_config) [0..<2])" by simp
  have n: "map (segment_of example_config) [0..<2] ! 0 = segment_of example_config 0"
    "map (segment_of example_config) [0..<2] ! Suc 0 = segment_of example_config (Suc 0)"
    by simp_all
  have v: "seg_start example_config (Suc 0) - OVERLAP example_config = 145"
    "seg_end example_config 0 + OVERLAP example_config = 154"
    by (simp_all add: example_config_def seg_start_def seg_end_def seg_len_def total_len_def)
  note C4_extended_overlap [OF h p l, THEN conjunct2, THEN conjunct2, THEN conjunct1]
  then have "{ext_start example_config 0 .. ext_end example_config 0}
        \<inter> {ext_start example_config (Suc 0) .. ext_end example_config (Suc 0)} = {145 .. 154}"
    unfolding n segment_of_sel v .
  with h p l show ?thesis by blast
qed

section \<open>Invalid configurations\<close>

text \<open>
  C6 (as amended). The start-up phase validates nothing and has no InvalidConfig error.
  Its only failure is the ZeroDivisionError of line 76, raised exactly when the segment count
  is 0, before any worker is started.  For every other configuration it starts one worker
  per index of \<open>range(NUM_SEGMENTS)\<close>: none for a negative count, and all of them also when
  \<open>total_end \<le> total_start\<close>.
\<close>

theorem C6_only_failure_is_zero_division:
  "(case started_workers c of
      Inl e \<Rightarrow> e = ZeroDivisionError \<and> NUM_SEGMENTS c = 0
    | Inr ws \<Rightarrow> NUM_SEGMENTS c \<noteq> 0 \<and> length ws = nat (NUM_SEGMENTS c))"
  by (simp add: started_workers_def plan_segments_def)

text \<open>
  C6 as stated makes \<open>total_end \<le> total_start\<close> a fatal error.  With the bounds 200 and
  100 and two segments both workers are started, each on the range from 200 to 100.
\<close>

theorem C6_counterexample:
  "TOTAL_END inverted_config \<le> TOTAL_START inverted_config
   \<and> started_workers inverted_config =
       Inr [[''taskset'', ''-c'', ''0'', ''./prime_search'', ''200'', ''100'',
             ''checkpoint_0.bin'', ''3600''],
            [''taskset'', ''-c'', ''1'', ''./prime_search'', ''200'', ''100'',
             ''checkpoint_1.bin'', ''3600'']]"
  by code_simp

section \<open>The fields of the protocol lines\<close>

lemma split_colon_nonempty: "split_colon s \<noteq> []"
  by (induction s) (auto split: list.splits)

lemma hd_split_colon: "hd (split_colon s) = takeWhile (\<lambda>ch. ch \<noteq> CHR '':'') s"
  by (induction s) (auto split: list.splits simp: split_colon_nonempty)

lemma field1_after_tag:
  assumes "split_colon line = tag # split_colon rest"
  shows "nth_py (split_colon line) (Suc 0) = Inr (takeWhile (\<lambda>ch. ch \<noteq> CHR '':'') rest)"
proof -
  obtain f fs where "split_colon rest = f # fs"
    using split_colon_nonempty [of rest] by (cases "split_colon rest") auto
  then show ?thesis
    using assms hd_split_colon [of rest] by (simp add: nth_py_def)
qed

lemma startswith_append: "startswith line p \<Longrightarrow> line = p @ drop (length p) line"
  unfolding startswith_def by (metis append_take_drop_id)

lemma split_colon_progress:
  "split_colon (''PROGRESS:'' @ rest) = ''PROGRESS'' # split_colon rest"
  by simp

lemma split_colon_success:
  "split_colon (''SUCCESS:'' @ rest) = ''SUCCESS'' # split_colon rest"
  by simp

lemma field1_progress:
  assumes "startswith line ''PROGRESS:''"
  shows "nth_py (split_colon line) (Suc 0) = Inr (takeWhile (\<lambda>ch. ch \<noteq> CHR '':'') (drop 9 line))"
proof -
  have len: "length ''PROGRESS:'' = 9" by simp
  have "line = ''PROGRESS:'' @ drop 9 line"
    using startswith_append [OF assms] unfolding len .
  then have "split_colon line = ''PROGRESS'' # split_colon (drop 9 line)"
    using split_colon_progress [of "drop 9 line"] by simp
  then show ?thesis by (rule field1_after_tag)
qed

lemma field1_success:
  assumes "startswith line ''SUCCESS:''"
  shows "nth_py (split_colon line) (Suc 0) = Inr (takeWhile (\<lambda>ch. ch \<noteq> CHR '':'') (drop 8 line))"
proof -
  have len: "length ''SUCCESS:'' = 8" by simp
  have "line = ''SUCCESS:'' @ drop 8 line"
    using startswith_append [OF assms] unfolding len .
  then have "split_colon line = ''SUCCESS'' # split_colon (drop 8 line)"
    using split_colon_success [of "drop 8 line"] by simp
  then show ?thesis by (rule field1_after_tag)
qed

lemma success_not_progress: "startswith line ''SUCCESS:'' \<Longrightarrow> \<not> startswith line ''PROGRESS:''"
  by (cases line) (auto simp: startswith_def)

lemma handle_line_progress:
  assumes "startswith line ''PROGRESS:''" and "PROGRESS_THROTTLE c \<noteq> 0"
  shows "handle_line c sid line st =
     Inr (False, st\<lparr>progress_counter := progress_counter st + 1,
                    printed := printed st @
                      (if (progress_counter st + 1) mod PROGRESS_THROTTLE c = 0
                       then [ProgressLine sid (payload 9 line)] else [])\<rparr>)"
  using assms by (simp add: handle_line_def field1_progress payload_def Let_def)

lemma handle_line_success:
  assumes "startswith line ''SUCCESS:''" and "sid < length (results st)"
  shows "handle_line c sid line st =
     Inr (True, st\<lparr>printed := printed st @ [SuccessLine sid (strip (payload 8 line))],
                   results := (results st)[sid := Some (strip (payload 8 line))],
                   stop_event := True\<rparr>)"
  using assms by (simp add: handle_line_def field1_success payload_def Let_def success_not_progress)

lemma handle_line_other:
  assumes "\<not> startswith line ''PROGRESS:''" and "\<not> startswith line ''SUCCESS:''"
  shows "handle_line c sid line st =
     Inr (False, st\<lparr>printed := printed st @ (if line \<noteq> [] then [InfoLine sid line] else [])\<rparr>)"
  using assms by (simp add: handle_line_def)

lemma handle_line_break_stops:
  "handle_line c sid line st = Inr (True, st') \<Longrightarrow> stop_event st'"
  by (auto simp: handle_line_def Let_def split: if_splits sum.splits)

section \<open>A success line stops the loop\<close>

lemma drain_append:
  "drain c pre st = Inr (False, st1) \<Longrightarrow> \<not> stop_event st1 \<Longrightarrow>
   drain c (pre @ rest) st = drain c rest st1"
proof (induction pre arbitrary: st)
  case Nil
  then show ?case by simp
next
  case (Cons q pre)
  show ?case
  proof (cases q)
    case Empty
    with Cons show ?thesis by simp
  next
    case KeyboardInterrupt
    with Cons.prems show ?thesis by simp
  next
    case (Item sid line)
    show ?thesis
    proof (cases "handle_line c sid line st")
      case (Inl e)
      with Cons.prems Item show ?thesis by simp
    next
      case (Inr r)
      obtain brk st' where r: "r = (brk, st')" by (cases r)
      show ?thesis
      proof (cases brk)
        case True
        with Inr r Item Cons.prems have "st' = st1" by simp
        moreover have "stop_event st'"
          using Inr r True by (auto intro: handle_line_break_stops)
        ultimately show ?thesis using Cons.prems(2) by simp
      next
        case False
        with Inr r Item Cons.prems have "drain c pre st' = Inr (False, st1)" by simp
        then have "drain c (pre @ rest) st' = drain c rest st1"
          using Cons.IH Cons.prems(2) by blast
        then show ?thesis using Inr r Item False by simp
      qed
    qed
  qed
qed

lemma coordinator_stopped: "stop_event st \<Longrightarrow> coordinator c ts st = Finished st"
  by (cases ts) simp_all

text \<open>
  C3. Whatever was dequeued before it in the tick (\<open>pre\<close>, handled without leaving the
  loop), once a dequeued line has the prefix \<open>SUCCESS:\<close> the coordinator prints it, records
  its value under the segment id of the line and sets the stop flag; the polls that follow
  in the same pass (\<open>rest\<close>) are not made, the loop is left in this very tick whatever the
  later ticks (\<open>ts\<close>) hold, and the success line is the last line the loop prints, so no
  progress line follows it.
\<close>

theorem C3_success_stops_the_loop:
  assumes "\<not> stop_event st"
    and "drain c pre st = Inr (False, st1)" and "\<not> stop_event st1"
    and "startswith line ''SUCCESS:''" and "sid < length (results st1)"
  shows "coordinator c (\<lparr>polls = pre @ Item sid line # rest, processes = ps\<rparr> # ts) st =
     Finished (st1\<lparr>printed := printed st1 @ [SuccessLine sid (strip (payload 8 line))],
                   results := (results st1)[sid := Some (strip (payload 8 line))],
                   stop_event := True\<rparr>)"
proof -
  let ?st2 = "st1\<lparr>printed := printed st1 @ [SuccessLine sid (strip (payload 8 line))],
                   results := (results st1)[sid := Some (strip (payload 8 line))],
                   stop_event := True\<rparr>"
  have "drain c (pre @ Item sid line # rest) st = drain c (Item sid line # rest) st1"
    using assms(2,3) by (rule drain_append)
  also have "\<dots> = Inr (False, ?st2)"
    by (simp add: handle_line_success [OF assms(4,5)])
  finally have d: "drain c (pre @ Item sid line # rest) st = Inr (False, ?st2)" .
  have "coordinator c ts ?st2 = Finished ?st2"
    by (rule coordinator_stopped) simp
  then show ?thesis using assms(1) d by simp
qed

text \<open>
  The same on a tick with a progress line before and after the success line, and a
  further tick behind it.
\<close>

theorem C3_success_stops_the_loop_witness:
  "\<not> stop_event (initial_state example_config)
   \<and> drain example_config [Item 0 ''PROGRESS:101''] (initial_state example_config) =
       Inr (False, \<lparr>results = [None, None], progress_counter = 1, stop_event = False,
                    printed = []\<rparr>)
   \<and> startswith ''SUCCESS: 180'' ''SUCCESS:''
   \<and> coordinator example_config
        (\<lparr>polls = [Item 0 ''PROGRESS:101''] @ Item 1 ''SUCCESS: 180'' # [Item 0 ''PROGRESS:102''],
          processes = [running_proc]\<rparr> # [exit_tick])
        (initial_state example_config) =
       Finished \<lparr>results = [None, Some ''180''], progress_counter = 1, stop_event = True,
                 printed = [SuccessLine 1 ''180'']\<rparr>"
proof -
  let ?st1 = "\<lparr>results = [None, None], progress_counter = 1, stop_event = False,
                    printed = []\<rparr>"
  have h1: "\<not> stop_event (initial_state example_config)" by code_simp
  have h2: "drain example_config [Item 0 ''PROGRESS:101''] (initial_state example_config) =
       Inr (False, ?st1)"
    by code_simp
  have h3: "\<not> stop_event ?st1" by simp
  have h4: "startswith ''SUCCESS: 180'' ''SUCCESS:''" by code_simp
  have h5: "1 < length (results ?st1)" by simp
  have v: "strip (payload 8 ''SUCCESS: 180'') = ''180''" by code_simp
  from C3_success_stops_the_loop [OF h1 h2 h3 h4 h5, of "[Item 0 ''PROGRESS:102'']"
      "[running_proc]" "[exit_tick]"]
  have "coordinator example_config
        (\<lparr>polls = [Item 0 ''PROGRESS:101''] @ Item 1 ''SUCCESS: 180'' # [Item 0 ''PROGRESS:102''],
          processes = [running_proc]\<rparr> # [exit_tick])
        (initial_state example_config) =
       Finished \<lparr>results = [None, Some ''180''], progress_counter = 1, stop_event = True,
                 printed = [SuccessLine 1 ''180'']\<rparr>"
    unfolding v by simp
  with h1 h2 h4 show ?thesis by blast
qed

section \<open>The loop ends when every process has exited\<close>

text \<open>
  C8. If every process handle in the registry has exited when line 127 reads it, the loop
  is left in this tick, whatever the later ticks hold and also when no success line has been
  seen: the state is the one after this tick's lines (with the interrupt notice if an
  interrupt arrived in the tick).
\<close>

theorem C8_all_exited_stops_the_loop:
  assumes "\<not> stop_event st" and "all_exited (processes t)"
    and "drain c (polls t) st = Inr (interrupted, st')"
  shows "coordinator c (t # ts) st =
     Finished (if interrupted
               then st'\<lparr>stop_event := True, printed := printed st' @ [InterruptLine]\<rparr>
               else st')"
  using assms by simp

text \<open>
  A tick with an informational line at which the only process has exited: the loop ends
  with nothing recorded, although more ticks follow.
\<close>

theorem C8_all_exited_stops_the_loop_witness:
  "\<not> stop_event (initial_state example_config) \<and> all_exited (processes exit_tick)
   \<and> drain example_config (polls exit_tick) (initial_state example_config) =
       Inr (False, \<lparr>results = [None, None], progress_counter = 0, stop_event = False,
                    printed = [InfoLine 0 ''range exhausted'']\<rparr>)
   \<and> coordinator example_config (exit_tick # progress_trace) (initial_state example_config) =
       Finished \<lparr>results = [None, None], progress_counter = 0, stop_event = False,
                 printed = [InfoLine 0 ''range exhausted'']\<rparr>"
proof -
  have h1: "\<not> stop_event (initial_state example_config)" by code_simp
  have h2: "all_exited (processes exit_tick)" by code_simp
  have h3: "drain example_config (polls exit_tick) (initial_state example_config) =
       Inr (False, \<lparr>results = [None, None], progress_counter = 0, stop_event = False,
                    printed = [InfoLine 0 ''range exhausted'']\<rparr>)"
    by code_simp
  from C8_all_exited_stops_the_loop [OF h1 h2 h3, of progress_trace]
  have "coordinator example_config (exit_tick # progress_trace) (initial_state example_config) =
       Finished \<lparr>results = [None, None], progress_counter = 0, stop_event = False,
                 printed = [InfoLine 0 ''range exhausted'']\<rparr>"
    by simp
  with h1 h2 h3 show ?thesis by blast
qed

section \<open>Throttled progress logging\<close>

lemma div_step:
  fixes a T :: int
  assumes "0 < T"
  shows "(a + 1) div T = a div T + (if (a + 1) mod T = 0 then 1 else 0)"
proof -
  define q r where "q = a div T" and "r = a mod T"
  have a: "a = T * q + r" and r: "0 \<le> r" "r < T"
    using assms by (simp_all add: q_def r_def)
  show ?thesis
  proof (cases "r + 1 < T")
    case True
    have e: "a + 1 = T * q + (r + 1)" using a by simp
    have "(a + 1) div T = q"
      using e _ True by (rule int_div_pos_eq) (use r in simp)
    moreover have "(a + 1) mod T = r + 1"
      using e _ True by (rule int_mod_pos_eq) (use r in simp)
    ultimately show ?thesis using r by (simp add: q_def)
  next
    case False
    then have rT: "r + 1 = T" using r by linarith
    have e: "a + 1 = T * (q + 1) + 0" using a rT by (simp add: algebra_simps)
    have "(a + 1) div T = q + 1"
      using e _ assms by (rule int_div_pos_eq) simp
    moreover have "(a + 1) mod T = 0"
      using e _ assms by (rule int_mod_pos_eq) simp
    ultimately show ?thesis by (simp add: q_def)
  qed
qed

lemma progress_lines_append [simp]:
  "progress_lines (xs @ ys) = progress_lines xs + progress_lines ys"
  by (simp add: progress_lines_def)

lemma handle_line_throttle:
  assumes "0 < PROGRESS_THROTTLE c" and "\<not> startswith line ''SUCCESS:''"
    and "int (progress_lines (printed st)) = progress_counter st div PROGRESS_THROTTLE c"
  shows "\<exists>st'. handle_line c sid line st = Inr (False, st')
    \<and> progress_counter st' = progress_counter st + (if startswith line ''PROGRESS:'' then 1 else 0)
    \<and> int (progress_lines (printed st')) = progress_counter st' div PROGRESS_THROTTLE c
    \<and> results st' = results st \<and> stop_event st' = stop_event st"
proof (cases "startswith line ''PROGRESS:''")
  case True
  have T: "PROGRESS_THROTTLE c \<noteq> 0" using assms(1) by simp
  show ?thesis
    using True assms(3) div_step [OF assms(1), of "progress_counter st"]
    by (simp add: handle_line_progress [OF True T] progress_lines_def)
next
  case False
  show ?thesis
    using False assms(3) by (simp add: handle_line_other [OF False assms(2)] progress_lines_def)
qed

lemma drain_throttle:
  assumes "0 < PROGRESS_THROTTLE c"
    and "list_all (\<lambda>q. q \<noteq> KeyboardInterrupt \<and> \<not> is_success q) qs"
    and "int (progress_lines (printed st)) = progress_counter st div PROGRESS_THROTTLE c"
  shows "\<exists>st'. drain c qs st = Inr (False, st')
    \<and> progress_counter st' = progress_counter st + int (length (filter is_progress qs))
    \<and> int (progress_lines (printed st')) = progress_counter st' div PROGRESS_THROTTLE c
    \<and> results st' = results st \<and> stop_event st' = stop_event st"
  using assms(2,3)
proof (induction qs arbitrary: st)
  case Nil
  then show ?case by simp
next
  case (Cons q qs)
  show ?case
  proof (cases q)
    case Empty
    with Cons show ?thesis by simp
  next
    case KeyboardInterrupt
    with Cons.prems show ?thesis by simp
  next
    case (Item sid line)
    then have ns: "\<not> startswith line ''SUCCESS:''" using Cons.prems(1) by simp
    from handle_line_throttle [OF assms(1) ns Cons.prems(2), of sid]
    obtain st1 where h: "handle_line c sid line st = Inr (False, st1)"
      and pc: "progress_counter st1 = progress_counter st + (if startswith line ''PROGRESS:'' then 1 else 0)"
      and inv: "int (progress_lines (printed st1)) = progress_counter st1 div PROGRESS_THROTTLE c"
      and fr: "results st1 = results st" "stop_event st1 = stop_event st"
      by blast
    from Cons.prems(1) have "list_all (\<lambda>q. q \<noteq> KeyboardInterrupt \<and> \<not> is_success q) qs" by simp
    from Cons.IH [OF this inv]
    obtain st' where d: "drain c qs st1 = Inr (False, st')"
      and pc': "progress_counter st' = progress_counter st1 + int (length (filter is_progress qs))"
      and inv': "int (progress_lines (printed st')) = progress_counter st' div PROGRESS_THROTTLE c"
      and fr': "results st' = results st1" "stop_event st' = stop_event st1"
      by blast
    show ?thesis using Item h d pc pc' inv' fr fr' by simp
  qed
qed

lemma coordinator_throttle:
  assumes "0 < PROGRESS_THROTTLE c"
    and "list_all quiet_tick ts" and "\<not> stop_event st"
    and "int (progress_lines (printed st)) = progress_counter st div PROGRESS_THROTTLE c"
  shows "\<exists>st'. coordinator c ts st = Running st'
    \<and> progress_counter st' = progress_counter st + int (progress_events ts)
    \<and> int (progress_lines (printed st')) = progress_counter st' div PROGRESS_THROTTLE c
    \<and> results st' = results st"
  using assms(2-)
proof (induction ts arbitrary: st)
  case Nil
  then show ?case by (simp add: progress_events_def)
next
  case (Cons t ts)
  from Cons.prems(1) have qt: "quiet_tick t" and q3: "list_all quiet_tick ts"
    by simp_all
  from qt have q: "\<not> all_exited (processes t)"
    "list_all (\<lambda>q. q \<noteq> KeyboardInterrupt \<and> \<not> is_success q) (polls t)"
    by (simp_all add: quiet_tick_def)
  from drain_throttle [OF assms(1) q(2) Cons.prems(3)]
  obtain st1 where d: "drain c (polls t) st = Inr (False, st1)"
    and pc: "progress_counter st1 = progress_counter st + int (length (filter is_progress (polls t)))"
    and inv: "int (progress_lines (printed st1)) = progress_counter st1 div PROGRESS_THROTTLE c"
    and fr: "results st1 = results st" "stop_event st1 = stop_event st"
    by blast
  have ns: "\<not> stop_event st1" using fr Cons.prems(2) by simp
  from Cons.IH [OF q3 ns inv]
  obtain st' where r: "coordinator c ts st1 = Running st'"
    and pc': "progress_counter st' = progress_counter st1 + int (progress_events ts)"
    and inv': "int (progress_lines (printed st')) = progress_counter st' div PROGRESS_THROTTLE c"
    and fr': "results st' = results st1"
    by blast
  show ?case using Cons.prems(2) d q(1) r pc pc' inv' fr fr'
    by (simp add: progress_events_def)
qed

text \<open>
  C7. With a throttle of at least 1, in every run from the initial state whose ticks
  neither end the loop nor carry a success line or an interrupt, the loop is still running
  after the ticks, the counter equals the number \<open>N\<close> of progress lines dequeued (each one
  adds exactly one), the number of progress lines printed is \<open>N div throttle\<close>, and that is
  at most \<open>ceil (N / throttle)\<close>.  A single progress line adds one to the counter and prints
  a line exactly when the new counter is divisible by the throttle.
\<close>

theorem C7_progress_throttle:
  assumes "1 \<le> PROGRESS_THROTTLE c" and "list_all quiet_tick ts"
  shows "(\<exists>st. coordinator c ts (initial_state c) = Running st
      \<and> progress_counter st = int (progress_events ts)
      \<and> int (progress_lines (printed st)) = int (progress_events ts) div PROGRESS_THROTTLE c
      \<and> int (progress_lines (printed st))
          \<le> \<lceil>real (progress_events ts) / real_of_int (PROGRESS_THROTTLE c)\<rceil>)
    \<and> (\<forall>sid line s. startswith line ''PROGRESS:'' \<longrightarrow>
          handle_line c sid line s =
            Inr (False, s\<lparr>progress_counter := progress_counter s + 1,
                          printed := printed s @
                            (if (progress_counter s + 1) mod PROGRESS_THROTTLE c = 0
                             then [ProgressLine sid (payload 9 line)] else [])\<rparr>))"
proof -
  have T: "0 < PROGRESS_THROTTLE c" "PROGRESS_THROTTLE c \<noteq> 0" using assms(1) by simp_all
  have i: "\<not> stop_event (initial_state c)"
    "int (progress_lines (printed (initial_state c)))
       = progress_counter (initial_state c) div PROGRESS_THROTTLE c"
    by (simp_all add: initial_state_def progress_lines_def)
  from coordinator_throttle [OF T(1) assms(2) i]
  obtain st where r: "coordinator c ts (initial_state c) = Running st"
    and pc: "progress_counter st = int (progress_events ts)"
    and inv: "int (progress_lines (printed st)) = progress_counter st div PROGRESS_THROTTLE c"
    by (auto simp: initial_state_def)
  have "int (progress_events ts) div PROGRESS_THROTTLE c
      = \<lfloor>real_of_int (int (progress_events ts)) / real_of_int (PROGRESS_THROTTLE c)\<rfloor>"
    by (simp only: floor_divide_of_int_eq)
  also have "\<dots> \<le> \<lceil>real (progress_events ts) / real_of_int (PROGRESS_THROTTLE c)\<rceil>"
    by simp
  finally have ce: "int (progress_events ts) div PROGRESS_THROTTLE c
      \<le> \<lceil>real (progress_events ts) / real_of_int (PROGRESS_THROTTLE c)\<rceil>" .
  have first: "\<exists>st. coordinator c ts (initial_state c) = Running st
      \<and> progress_counter st = int (progress_events ts)
      \<and> int (progress_lines (printed st)) = int (progress_events ts) div PROGRESS_THROTTLE c
      \<and> int (progress_lines (printed st))
          \<le> \<lceil>real (progress_events ts) / real_of_int (PROGRESS_THROTTLE c)\<rceil>"
    using r pc inv ce by auto
  have second: "\<forall>sid line s. startswith line ''PROGRESS:'' \<longrightarrow>
          handle_line c sid line s =
            Inr (False, s\<lparr>progress_counter := progress_counter s + 1,
                          printed := printed s @
                            (if (progress_counter s + 1) mod PROGRESS_THROTTLE c = 0
                             then [ProgressLine sid (payload 9 line)] else [])\<rparr>)"
    using handle_line_progress [OF _ T(2)] by blast
  from first second show ?thesis by (rule conjI)
qed

text \<open>
  Ten progress lines with the throttle 10 of the example: the counter ends at 10 and one
  line is printed.
\<close>

theorem C7_progress_throttle_witness:
  "1 \<le> PROGRESS_THROTTLE example_config \<and> list_all quiet_tick progress_trace
   \<and> (\<exists>st. coordinator example_config progress_trace (initial_state example_config) = Running st
        \<and> progress_counter st = 10 \<and> progress_lines (printed st) = 1)"
proof -
  have h1: "1 \<le> PROGRESS_THROTTLE example_config" by (simp add: example_config_def)
  have h2: "list_all quiet_tick progress_trace" by code_simp
  have n: "progress_events progress_trace = 10" by code_simp
  have t: "PROGRESS_THROTTLE example_config = 10" by (simp add: example_config_def)
  from C7_progress_throttle [OF h1 h2, THEN conjunct1]
  obtain st where "coordinator example_config progress_trace (initial_state example_config) = Running st"
    and "progress_counter st = int (progress_events progress_trace)"
    and "int (progress_lines (printed st))
          = int (progress_events progress_trace) div PROGRESS_THROTTLE example_config"
    by blast
  then have "coordinator example_config progress_trace (initial_state example_config) = Running st
        \<and> progress_counter st = 10 \<and> progress_lines (printed st) = 1"
    unfolding n t by simp
  with h1 h2 show ?thesis by blast
qed

section \<open>At most one success is recorded\<close>

lemma success_payloads_append:
  "success_payloads (xs @ ys) = success_payloads xs @ success_payloads ys"
  by (induction xs rule: success_payloads.induct) simp_all

lemma filter_update_all_None:
  "list_all (\<lambda>r. r = None) xs \<Longrightarrow> i < length xs \<Longrightarrow>
   filter (\<lambda>r. r \<noteq> None) (xs[i := Some n]) = [Some n]"
proof (induction xs arbitrary: i)
  case Nil
  then show ?case by simp
next
  case (Cons x xs)
  have rest: "filter (\<lambda>r. r \<noteq> None) xs = []"
    using Cons.prems(1) by (auto simp: list_all_iff filter_empty_conv)
  show ?case
  proof (cases i)
    case 0
    then show ?thesis using rest by simp
  next
    case (Suc j)
    then show ?thesis using Cons by simp
  qed
qed

lemma handle_line_recorded:
  assumes "nothing_recorded st" and "handle_line c sid line st = Inr (brk, st')"
  shows "if brk then one_recorded st' \<and> stop_event st'
         else nothing_recorded st' \<and> stop_event st' = stop_event st"
proof (cases "startswith line ''PROGRESS:''")
  case True
  then show ?thesis
    using assms
    by (auto simp: handle_line_def Let_def nothing_recorded_def success_payloads_append
        split: if_splits sum.splits)
next
  case np: False
  show ?thesis
  proof (cases "startswith line ''SUCCESS:''")
    case True
    show ?thesis
    proof (cases "sid < length (results st)")
      case True
      note h = handle_line_success [OF \<open>startswith line ''SUCCESS:''\<close> True, of c]
      from h assms(2) have brk: "brk"
        and st': "st' = st\<lparr>printed := printed st @ [SuccessLine sid (strip (payload 8 line))],
                   results := (results st)[sid := Some (strip (payload 8 line))],
                   stop_event := True\<rparr>"
        by simp_all
      have la: "list_all (\<lambda>r. r = None) (results st)"
        using assms(1) by (simp add: nothing_recorded_def)
      have rs: "results st' = (results st)[sid := Some (strip (payload 8 line))]"
        by (simp add: st')
      have "filter (\<lambda>r. r \<noteq> None) (results st') = [Some (strip (payload 8 line))]"
        unfolding rs using la True by (rule filter_update_all_None)
      moreover have "success_payloads (printed st') = [strip (payload 8 line)]"
        using assms(1) by (simp add: st' nothing_recorded_def success_payloads_append)
      ultimately show ?thesis using brk by (simp add: one_recorded_def st')
    next
      case False
      then have "handle_line c sid line st = Inl IndexError"
        using True np by (simp add: handle_line_def field1_success Let_def)
      with assms(2) show ?thesis by simp
    qed
  next
    case False
    show ?thesis
      using assms by (auto simp: handle_line_other [OF np False] nothing_recorded_def
          success_payloads_append)
  qed
qed

lemma drain_recorded:
  assumes "nothing_recorded st" and "drain c qs st = Inr (interrupted, st')"
  shows "(nothing_recorded st' \<and> stop_event st' = stop_event st)
       \<or> (one_recorded st' \<and> stop_event st' \<and> \<not> interrupted)"
  using assms
proof (induction qs arbitrary: st)
  case Nil
  then show ?case by simp
next
  case (Cons q qs)
  show ?case
  proof (cases q)
    case Empty
    with Cons show ?thesis by simp
  next
    case KeyboardInterrupt
    with Cons.prems show ?thesis by simp
  next
    case (Item sid line)
    show ?thesis
    proof (cases "handle_line c sid line st")
      case (Inl e)
      with Cons.prems Item show ?thesis by simp
    next
      case (Inr r)
      obtain brk st1 where r: "r = (brk, st1)" by (cases r)
      note hl = handle_line_recorded [OF Cons.prems(1) Inr [unfolded r]]
      show ?thesis
      proof (cases brk)
        case True
        with Inr r Item Cons.prems(2) have "st' = st1" "\<not> interrupted" by simp_all
        with hl True show ?thesis by simp
      next
        case False
        with hl have n1: "nothing_recorded st1" and s1: "stop_event st1 = stop_event st" by simp_all
        from False Inr r Item Cons.prems(2) have "drain c qs st1 = Inr (interrupted, st')" by simp
        from Cons.IH [OF n1 this] s1 show ?thesis by simp
      qed
    qed
  qed
qed

lemma coordinator_recorded:
  assumes "nothing_recorded st" and "\<not> stop_event st"
    and "coordinator c ts st = Finished st' \<or> coordinator c ts st = Running st'"
  shows "nothing_recorded st' \<or> one_recorded st'"
  using assms
proof (induction ts arbitrary: st)
  case Nil
  then show ?case by (auto split: if_splits)
next
  case (Cons t ts)
  show ?case
  proof (cases "drain c (polls t) st")
    case (Inl e)
    with Cons.prems show ?thesis by simp
  next
    case (Inr r)
    obtain interrupted st1 where r: "r = (interrupted, st1)" by (cases r)
    note d = drain_recorded [OF Cons.prems(1) Inr [unfolded r]]
    show ?thesis
    proof (cases interrupted)
      case True
      with d have n1: "nothing_recorded st1" by auto
      from True Inr r Cons.prems(2,3)
      have "st' = st1\<lparr>stop_event := True, printed := printed st1 @ [InterruptLine]\<rparr>" by simp
      with n1 show ?thesis by (simp add: nothing_recorded_def success_payloads_append)
    next
      case ni: False
      show ?thesis
      proof (cases "all_exited (processes t)")
        case True
        with ni Inr r Cons.prems(2,3) have "st' = st1" by simp
        with d show ?thesis by auto
      next
        case False
        with ni Inr r Cons.prems(2,3)
        have c: "coordinator c ts st1 = Finished st' \<or> coordinator c ts st1 = Running st'" by simp
        show ?thesis
        proof (cases "stop_event st1")
          case True
          then have "coordinator c ts st1 = Finished st1" by (rule coordinator_stopped)
          with c have "st' = st1" by simp
          with d show ?thesis by auto
        next
          case False
          with d Cons.prems(2) have "nothing_recorded st1" by auto
          from Cons.IH [OF this False c] show ?thesis .
        qed
      qed
    qed
  qed
qed

text \<open>
  C9. In every run from the initial state, when the loop has ended (and at any moment
  before), the results table holds at most one entry that is not \<open>None\<close>, at most one
  success line has been dequeued and printed, and the final report is the value of that
  first success line, whichever segment sent it; it is "not found" when there is none.
\<close>

theorem C9_first_success_is_reported:
  assumes "coordinator c ts (initial_state c) = Finished st
         \<or> coordinator c ts (initial_state c) = Running st"
  shows "length (filter (\<lambda>r. r \<noteq> None) (results st)) \<le> 1
     \<and> length (success_payloads (printed st)) \<le> 1
     \<and> final_report (results st) =
         (case success_payloads (printed st) of [] \<Rightarrow> NotFound | n # ns \<Rightarrow> Found n)"
proof -
  have i: "nothing_recorded (initial_state c)" "\<not> stop_event (initial_state c)"
    by (simp_all add: nothing_recorded_def initial_state_def list_all_iff)
  from coordinator_recorded [OF i assms]
  show ?thesis
  proof
    assume n: "nothing_recorded st"
    then have "filter (\<lambda>r. r \<noteq> None) (results st) = []"
      by (auto simp: nothing_recorded_def list_all_iff filter_empty_conv)
    then show ?thesis using n by (simp add: nothing_recorded_def final_report_def)
  next
    assume "one_recorded st"
    then obtain n where "filter (\<lambda>r. r \<noteq> None) (results st) = [Some n]"
      and "success_payloads (printed st) = [n]"
      by (auto simp: one_recorded_def)
    then show ?thesis by (simp add: final_report_def)
  qed
qed

text \<open>
  Segment 1 reports 180 in the first tick, segment 0 reports 120 in the second: only 180
  is recorded, and 180 is reported.
\<close>

theorem C9_first_success_is_reported_witness:
  "coordinator example_config success_trace (initial_state example_config) =
     Finished \<lparr>results = [None, Some ''180''], progress_counter = 1, stop_event = True,
               printed = [SuccessLine 1 ''180'']\<rparr>
   \<and> final_report [None, Some ''180''] = Found ''180''"
proof -
  have h: "coordinator example_config success_trace (initial_state example_config) =
     Finished \<lparr>results = [None, Some ''180''], progress_counter = 1, stop_event = True,
               printed = [SuccessLine 1 ''180'']\<rparr>"
    by code_simp
  from C9_first_success_is_reported [OF disjI1, OF h]
  have "final_report [None, Some ''180''] = Found ''180''" by simp
  with h show ?thesis by blast
qed

section \<open>The final report\<close>

text \<open>
  C1 (as amended). When the coordinator loop has ended, the results table holds at most
  one value: a recorded value is the one the final report gives, so the report is the
  numeric minimum of all recorded values.  The report is "not found" exactly when no value
  was recorded.  (The value is that of the first success line dequeued, see C9; a success
  line of another segment that is not dequeued first is not recorded, whatever its value.)
\<close>

theorem C1_report_is_the_recorded_value:
  assumes "coordinator c ts (initial_state c) = Finished st"
  shows "final_report (results st) = numeric_min_report (results st)
    \<and> (final_report (results st) = NotFound \<longleftrightarrow> list_all (\<lambda>r. r = None) (results st))
    \<and> (\<forall>s. Some s \<in> set (results st) \<longrightarrow> final_report (results st) = Found s)"
proof -
  have i: "nothing_recorded (initial_state c)" "\<not> stop_event (initial_state c)"
    by (simp_all add: nothing_recorded_def initial_state_def list_all_iff)
  from coordinator_recorded [OF i disjI1, OF assms]
  show ?thesis
  proof
    assume "nothing_recorded st"
    then have a: "list_all (\<lambda>r. r = None) (results st)"
      by (simp add: nothing_recorded_def)
    then have f: "filter (\<lambda>r. r \<noteq> None) (results st) = []"
      by (auto simp: list_all_iff filter_empty_conv)
    have r: "final_report (results st) = NotFound"
      unfolding final_report_def Let_def f by simp
    have q: "numeric_min_report (results st) = NotFound"
      unfolding numeric_min_report_def Let_def f by simp
    have "Some s \<notin> set (results st)" for s
      using a by (auto simp: list_all_iff)
    with r q a show ?thesis by simp
  next
    assume "one_recorded st"
    then obtain n where f: "filter (\<lambda>r. r \<noteq> None) (results st) = [Some n]"
      by (auto simp: one_recorded_def)
    have only: "s = n" if "Some s \<in> set (results st)" for s
    proof -
      from that have "Some s \<in> set (filter (\<lambda>r. r \<noteq> None) (results st))" by simp
      then show ?thesis unfolding f by simp
    qed
    have "Some n \<in> set (filter (\<lambda>r. r \<noteq> None) (results st))" unfolding f by simp
    then have "Some n \<in> set (results st)" by simp
    then have nn: "\<not> list_all (\<lambda>r. r = None) (results st)"
      by (auto simp: list_all_iff)
    have r: "final_report (results st) = Found n"
      unfolding final_report_def Let_def f by simp
    have q: "numeric_min_report (results st) = Found n"
      unfolding numeric_min_report_def Let_def f by simp
    from r q nn only show ?thesis by auto
  qed
qed

text \<open>
  C1 as stated promises the numeric minimum of the two when two segments each report a
  success.  Segment 1 sends \<open>SUCCESS:180\<close> and segment 0 sends \<open>PROGRESS:101\<close> and then
  \<open>SUCCESS:120\<close>.  The first pass of the loop dequeues the progress line of segment 0 and the
  success line of segment 1, records 180, sets the stop flag and leaves the loop: 180 is
  reported.  Had both successes been recorded, the numeric minimum would be 120.
\<close>

theorem C1_counterexample:
  "main example_config success_trace [running_proc] [] =
     Inr (Some \<lparr>terminated = [0], reported = Found ''180'',
                out_lines = [SuccessLine 1 ''180'']\<rparr>)
   \<and> spec_recorded example_config success_trace = [Some ''120'', Some ''180'']
   \<and> numeric_min_report (spec_recorded example_config success_trace) = Found ''120''"
  by code_simp

text \<open>
  The amended statement on a run of three segments in which segment 0 reports 120.
\<close>

theorem C1_report_is_the_recorded_value_witness:
  "coordinator three_config [success_tick] (initial_state three_config) =
     Finished \<lparr>results = [Some ''120'', None, None], progress_counter = 0, stop_event = True,
               printed = [SuccessLine 0 ''120'']\<rparr>
   \<and> final_report [Some ''120'', None, None] = Found ''120''
   \<and> numeric_min_report [Some ''120'', None, None] = Found ''120''"
proof -
  have h: "coordinator three_config [success_tick] (initial_state three_config) =
     Finished \<lparr>results = [Some ''120'', None, None], progress_counter = 0, stop_event = True,
               printed = [SuccessLine 0 ''120'']\<rparr>"
    by code_simp
  note t = C1_report_is_the_recorded_value [OF h]
  from t [THEN conjunct1] have e: "final_report [Some ''120'', None, None]
      = numeric_min_report [Some ''120'', None, None]"
    by simp
  from t [THEN conjunct2, THEN conjunct2] have a:
    "final_report [Some ''120'', None, None] = Found ''120''"
    by simp
  have b: "numeric_min_report [Some ''120'', None, None] = Found ''120''"
    unfolding e [symmetric] by (rule a)
  show ?thesis by (intro conjI h a b)
qed

section \<open>Shutdown\<close>

lemma terminate_loop_step:
  "i < length reg \<Longrightarrow>
   terminate_loop i reg sched =
     proc_id (reg ! i) #
       terminate_loop (Suc i) (remove_handles (next_removals sched) reg) (tl sched)"
  by (subst terminate_loop.simps) (simp split: sum.splits)

lemma terminate_loop_end: "\<not> i < length reg \<Longrightarrow> terminate_loop i reg sched = []"
  by (subst terminate_loop.simps) simp

text \<open>
  When no worker thread removes a handle while the loop of line 134 runs,
  \<^verbatim>\<open>terminate\<close> is called once on each handle of the registry, in order, whatever calls
  raise.
\<close>

lemma terminate_loop_undisturbed:
  "list_all (\<lambda>gone. gone = []) sched \<Longrightarrow> terminate_loop i reg sched = map proc_id (drop i reg)"
proof (induction "length reg - i" arbitrary: i sched)
  case 0
  then have "\<not> i < length reg" by simp
  then show ?case by (simp add: terminate_loop_end)
next
  case (Suc n)
  then have i: "i < length reg" and n: "n = length reg - Suc i" by simp_all
  have q: "next_removals sched = []" "list_all (\<lambda>gone. gone = []) (tl sched)"
    using Suc.prems by (cases sched; simp add: next_removals_def)+
  have "terminate_loop (Suc i) reg (tl sched) = map proc_id (drop (Suc i) reg)"
    using n q(2) by (rule Suc.hyps(1))
  then show ?case
    using i q(1) by (simp add: terminate_loop_step Cons_nth_drop_Suc [symmetric])
qed

lemma main_undisturbed:
  assumes "started_workers c = Inr ws"
    and "coordinator c ticks (initial_state c) = Finished st"
    and "list_all (\<lambda>gone. gone = []) sched"
  shows "main c ticks registry sched =
     Inr (Some \<lparr>terminated = map proc_id registry, reported = final_report (results st),
                out_lines = printed st\<rparr>)"
  using assms by (simp add: main_def shutdown_def terminate_loop_undisturbed)

text \<open>
  C10. The claim is that the shutdown phase calls \<^verbatim>\<open>terminate\<close> exactly once on each
  process still in the registry, whatever calls raise, and then prints the final report.
  The report is printed, but the loop of line 134 can pass over a handle.  In a run of three
  segments, segment 0 reports 120 and its engine exits.  The registry holds the three
  handles when the shutdown loop starts, and the worker thread of segment 0 removes its
  handle (lines 64-65) right after the first step of the loop.  The next position of the
  iterator then holds the handle of segment 2: \<^verbatim>\<open>terminate\<close> is called on the processes 0
  and 2 only, and process 1, still running and still in the registry, is never asked to
  terminate.
\<close>

theorem C10_handle_skipped:
  "main three_config [success_tick] three_handles [[0]] =
     Inr (Some \<lparr>terminated = [0, 2], reported = Found ''120'',
                out_lines = [SuccessLine 0 ''120'']\<rparr>)
   \<and> remove_handles [0] three_handles =
       [\<lparr>proc_id = 1, returncode = None, terminate_raises = False\<rparr>,
        \<lparr>proc_id = 2, returncode = None, terminate_raises = False\<rparr>]"
  by code_simp

end
